theory Spec2Isabelle
  imports Main
begin

section \<open>Query Pulse: the query-state engine\<close>

text \<open>
  A shallow embedding of \<^verbatim>\<open>src/lib/types.ts\<close>, \<^verbatim>\<open>src/lib/QueryProvider.tsx\<close> (the
  version with the optional cache plugin), \<^verbatim>\<open>src/lib/useQuery.ts\<close> and
  \<^verbatim>\<open>src/lib/plugins/cache/InMemoryCache.ts\<close>.

  JavaScript values of type \<^verbatim>\<open>unknown\<close> are values of a type \<open>'v\<close>; a value that
  may be \<^verbatim>\<open>undefined\<close> is a \<open>'v option\<close>, with \<open>None\<close> for \<^verbatim>\<open>undefined\<close> (an optional
  field that is absent reads as \<^verbatim>\<open>undefined\<close>). A fetch function is a value of
  a type \<open>'p\<close>: the engine never looks inside it, it only calls it.

  The store object has the declared type \<^verbatim>\<open>{ [key: string]: QueryState }\<close>; it is a plain
  object, so that \<^verbatim>\<open>store[key]\<close> reads an entry of the store or, where the store has none,
  the member of \<^verbatim>\<open>Object.prototype\<close> of that name.
\<close>

subsection \<open>types.ts\<close>

datatype QueryStatus = Idle | Loading | Success | Error

text \<open>
  \<^verbatim>\<open>refetch: () => fetchData(key, fetchFn)\<close> is a closure over the key and the fetch
  function: the field holds the pair it captured.
\<close>

record ('v, 'p) QueryState =
  status :: QueryStatus
  data :: "'v option"
  error :: "'v option"
  isFetching :: bool
  refetch :: "string \<times> 'p"

text \<open>
  Record objects live in a heap and a store maps a key to the address of its record:
  \<^verbatim>\<open>{ ...prevStore }\<close> copies the references, not the records. An object literal
  allocates the next address, the number of records so far. The heap also holds the built-in
  objects that are the members of \<^verbatim>\<open>Object.prototype\<close>; of these it records the ones on which
  \<^verbatim>\<open>isFetching = true\<close> has been assigned.
\<close>

type_synonym QueryStore = "string \<rightharpoonup> nat"

record ('v, 'p) objects =
  records :: "('v, 'p) QueryState list"
  marked :: "string set"

text \<open>
  The names of the members of \<^verbatim>\<open>Object.prototype\<close>. Each is a function object, except
  \<^verbatim>\<open>__proto__\<close>, an accessor that reads as \<^verbatim>\<open>Object.prototype\<close> itself on a store.
\<close>

definition objectPrototypeNames :: "string list" where
  "objectPrototypeNames =
     [''constructor'', ''__defineGetter__'', ''__defineSetter__'', ''hasOwnProperty'',
      ''__lookupGetter__'', ''__lookupSetter__'', ''isPrototypeOf'', ''propertyIsEnumerable'',
      ''toString'', ''valueOf'', ''__proto__'', ''toLocaleString'']"

text \<open>
  What \<^verbatim>\<open>store[key]\<close> evaluates to: \<^verbatim>\<open>undefined\<close>, a record object, or the member of
  \<^verbatim>\<open>Object.prototype\<close> of that name, found through the prototype chain when the store has
  no entry of its own.
\<close>

datatype member = Undefined | RecordAt nat | ObjectPrototypeMember string

definition getMember :: "QueryStore \<Rightarrow> string \<Rightarrow> member" where
  "getMember store key =
     (case store key of
        Some a \<Rightarrow> RecordAt a
      | None \<Rightarrow>
          if key \<in> set objectPrototypeNames then ObjectPrototypeMember key else Undefined)"

subsection \<open>plugins/CachePlugin.ts and plugins/cache/InMemoryCache.ts\<close>

text \<open>
  A cache plugin is an object with three methods over a state of its own, of type
  \<open>'c\<close>. \<^verbatim>\<open>get\<close> returns \<^verbatim>\<open>T | undefined\<close>.
\<close>

record ('c, 'v) CachePlugin =
  cache_get :: "'c \<Rightarrow> string \<Rightarrow> 'v option"
  cache_set :: "'c \<Rightarrow> string \<Rightarrow> 'v option \<Rightarrow> 'c"
  cache_delete :: "'c \<Rightarrow> string \<Rightarrow> 'c"

text \<open>
  \<^verbatim>\<open>private store = new Map<string, unknown>()\<close>: a stored value may itself be
  \<^verbatim>\<open>undefined\<close>, and \<^verbatim>\<open>Map.get\<close> of a missing key is \<^verbatim>\<open>undefined\<close>.
\<close>

definition InMemoryCache_get :: "(string \<rightharpoonup> 'v option) \<Rightarrow> string \<Rightarrow> 'v option" where
  "InMemoryCache_get store key = (case store key of None \<Rightarrow> None | Some value \<Rightarrow> value)"

definition InMemoryCache_set ::
  "(string \<rightharpoonup> 'v option) \<Rightarrow> string \<Rightarrow> 'v option \<Rightarrow> (string \<rightharpoonup> 'v option)" where
  "InMemoryCache_set store key value = store(key \<mapsto> value)"

definition InMemoryCache_delete :: "(string \<rightharpoonup> 'v option) \<Rightarrow> string \<Rightarrow> (string \<rightharpoonup> 'v option)" where
  "InMemoryCache_delete store key = store(key := None)"

definition InMemoryCache :: "(string \<rightharpoonup> 'v option, 'v) CachePlugin" where
  "InMemoryCache =
     \<lparr>cache_get = InMemoryCache_get, cache_set = InMemoryCache_set,
      cache_delete = InMemoryCache_delete\<rparr>"

subsection \<open>QueryProvider.tsx: the state of the provider\<close>

text \<open>
  The four functions passed to \<^verbatim>\<open>setQueryStore\<close>, in the order they appear in
  \<^verbatim>\<open>fetchData\<close>: the cache hit, the loading mark, the success write, the error write.
  Each closes over the key, the value it writes and the fetch function.
\<close>

datatype ('v, 'p) updater =
  CachedUpdater string 'v 'p
  | LoadingUpdater string 'p
  | SuccessUpdater string "'v option" 'p
  | ErrorUpdater string "'v option" 'p

text \<open>
  \<open>queryStore\<close> is the React state, \<open>queryStoreRef\<close> is \<^verbatim>\<open>queryStoreRef.current\<close>,
  \<open>pending\<close> the updaters passed to \<^verbatim>\<open>setQueryStore\<close> that React has not run yet,
  \<open>awaiting\<close> the calls of \<^verbatim>\<open>fetchData\<close> suspended at \<^verbatim>\<open>await fetchFn()\<close>, \<open>calls\<close> the
  log of the calls of fetch functions, \<open>cacheState\<close> the state of the cache plugin.
\<close>

record ('v, 'p, 'c) provider =
  heap :: "('v, 'p) objects"
  queryStore :: QueryStore
  queryStoreRef :: QueryStore
  pending :: "('v, 'p) updater list"
  awaiting :: "(string \<times> 'p) list"
  calls :: "(string \<times> 'p) list"
  cacheState :: 'c

text \<open>\<^verbatim>\<open>useState<QueryStore>({})\<close> and \<^verbatim>\<open>useRef(queryStore)\<close>.\<close>

definition QueryProvider :: "'c \<Rightarrow> ('v, 'p, 'c) provider" where
  "QueryProvider c =
     \<lparr>heap = \<lparr>records = [], marked = {}\<rparr>, queryStore = Map.empty,
      queryStoreRef = Map.empty, pending = [], awaiting = [], calls = [], cacheState = c\<rparr>"

text \<open>The record object that \<^verbatim>\<open>store[key]\<close> is, where it is one.\<close>

definition lookup :: "('v, 'p) objects \<Rightarrow> QueryStore \<Rightarrow> string \<Rightarrow> ('v, 'p) QueryState option" where
  "lookup h store key =
     (case getMember store key of
        RecordAt a \<Rightarrow> if a < length (records h) then Some (records h ! a) else None
      | Undefined \<Rightarrow> None
      | ObjectPrototypeMember n \<Rightarrow> None)"

text \<open>
  Whether \<^verbatim>\<open>x?.isFetching\<close> is true for what a store holds under a key. A record has the
  field. A built-in has the property once it has been assigned on it, or on
  \<^verbatim>\<open>Object.prototype\<close>, from which every built-in inherits.
\<close>

definition isFetchingOf :: "('v, 'p) objects \<Rightarrow> member \<Rightarrow> bool" where
  "isFetchingOf h x =
     (case x of
        Undefined \<Rightarrow> False
      | RecordAt a \<Rightarrow> a < length (records h) \<and> isFetching (records h ! a)
      | ObjectPrototypeMember n \<Rightarrow> n \<in> marked h \<or> ''__proto__'' \<in> marked h)"

text \<open>
  Running one updater on \<^verbatim>\<open>prevStore\<close>. Three of them store a new object literal under
  the key. The loading mark does so only when \<^verbatim>\<open>!newStore[key]\<close>; otherwise it assigns
  \<^verbatim>\<open>newStore[key].isFetching = true\<close>, on the record object that \<^verbatim>\<open>prevStore\<close> holds or, for a
  key that only names a member of \<^verbatim>\<open>Object.prototype\<close>, on that built-in object.

  The cache hit defines the entry in an object literal with a computed key. The other
  writes are assignments \<^verbatim>\<open>newStore[key] = {...}\<close>, taken here as setting the entry of the
  copy. For the one key \<^verbatim>\<open>__proto__\<close> JavaScript passes such an assignment to the accessor of
  \<^verbatim>\<open>Object.prototype\<close>, which makes the record the prototype of the copy: the key reads
  back as the record, as here, but a later copy of the store does not carry it over.
\<close>

fun applyUpdater ::
  "('v, 'p) updater \<Rightarrow> ('v, 'p) objects \<times> QueryStore \<Rightarrow> ('v, 'p) objects \<times> QueryStore" where
  "applyUpdater (CachedUpdater key cachedData fetchFn) (h, prevStore) =
     (h\<lparr>records := records h @
          [\<lparr>status = Success, data = Some cachedData, error = None, isFetching = False,
            refetch = (key, fetchFn)\<rparr>]\<rparr>,
      prevStore(key \<mapsto> length (records h)))"
| "applyUpdater (LoadingUpdater key fetchFn) (h, prevStore) =
     (case getMember prevStore key of
        Undefined \<Rightarrow>
          (h\<lparr>records := records h @
               [\<lparr>status = Loading, data = None, error = None, isFetching = True,
                 refetch = (key, fetchFn)\<rparr>]\<rparr>,
           prevStore(key \<mapsto> length (records h)))
      | RecordAt a \<Rightarrow>
          (h\<lparr>records := (records h)[a := (records h ! a)\<lparr>isFetching := True\<rparr>]\<rparr>, prevStore)
      | ObjectPrototypeMember n \<Rightarrow> (h\<lparr>marked := insert n (marked h)\<rparr>, prevStore))"
| "applyUpdater (SuccessUpdater key d fetchFn) (h, prevStore) =
     (h\<lparr>records := records h @
          [\<lparr>status = Success, data = d, error = None, isFetching = False,
            refetch = (key, fetchFn)\<rparr>]\<rparr>,
      prevStore(key \<mapsto> length (records h)))"
| "applyUpdater (ErrorUpdater key e fetchFn) (h, prevStore) =
     (h\<lparr>records := records h @
          [\<lparr>status = Error, data = None, error = e, isFetching = False,
            refetch = (key, fetchFn)\<rparr>]\<rparr>,
      prevStore(key \<mapsto> length (records h)))"

fun applyUpdaters ::
  "('v, 'p) updater list \<Rightarrow> ('v, 'p) objects \<times> QueryStore \<Rightarrow> ('v, 'p) objects \<times> QueryStore" where
  "applyUpdaters [] hs = hs"
| "applyUpdaters (u # us) hs = applyUpdaters us (applyUpdater u hs)"

text \<open>
  \<^verbatim>\<open>setQueryStore(f)\<close> queues the updater; React runs the queue at the next render. (React
  may run an updater already inside \<^verbatim>\<open>setQueryStore\<close> when nothing is queued. The store
  after the next render is the same; the assignment of the loading mark then takes place
  before that render.)
\<close>

definition setQueryStore :: "('v, 'p) updater \<Rightarrow> ('v, 'p, 'c) provider \<Rightarrow> ('v, 'p, 'c) provider" where
  "setQueryStore u s = s\<lparr>pending := pending s @ [u]\<rparr>"

text \<open>A render of the provider: the queued updaters run in order and give the new store.\<close>

definition render :: "('v, 'p, 'c) provider \<Rightarrow> ('v, 'p, 'c) provider" where
  "render s =
     (let (h, store) = applyUpdaters (pending s) (heap s, queryStore s)
      in s\<lparr>heap := h, queryStore := store, pending := []\<rparr>)"

text \<open>\<^verbatim>\<open>useEffect(() => { queryStoreRef.current = queryStore }, [queryStore])\<close>.\<close>

definition syncRef :: "('v, 'p, 'c) provider \<Rightarrow> ('v, 'p, 'c) provider" where
  "syncRef s = s\<lparr>queryStoreRef := queryStore s\<rparr>"

text \<open>\<^verbatim>\<open>queryStoreRef.current[key]?.isFetching\<close>, as a condition.\<close>

definition refIsFetching :: "('v, 'p, 'c) provider \<Rightarrow> string \<Rightarrow> bool" where
  "refIsFetching s key = isFetchingOf (heap s) (getMember (queryStoreRef s) key)"

subsection \<open>QueryProvider.tsx: fetchData\<close>

text \<open>
  \<^verbatim>\<open>fetchData\<close> up to its \<^verbatim>\<open>await\<close>: the early exit, the cache read, the loading mark and
  the call of the fetch function, whose promise the call then waits for. The cache is
  read when \<^verbatim>\<open>!queryStoreRef.current[key]\<close>: a record and a built-in are both truthy.
\<close>

definition cacheRead ::
  "('c, 'v) CachePlugin option \<Rightarrow> string \<Rightarrow> 'p \<Rightarrow> ('v, 'p, 'c) provider \<Rightarrow> ('v, 'p, 'c) provider" where
  "cacheRead cache key fetchFn s =
     (case cache of
        None \<Rightarrow> s
      | Some c \<Rightarrow>
          (case getMember (queryStoreRef s) key of
             RecordAt a \<Rightarrow> s
           | ObjectPrototypeMember n \<Rightarrow> s
           | Undefined \<Rightarrow>
               (case cache_get c (cacheState s) key of
                  None \<Rightarrow> s
                | Some cachedData \<Rightarrow> setQueryStore (CachedUpdater key cachedData fetchFn) s)))"

definition fetchData ::
  "('c, 'v) CachePlugin option \<Rightarrow> string \<Rightarrow> 'p \<Rightarrow> ('v, 'p, 'c) provider \<Rightarrow> ('v, 'p, 'c) provider" where
  "fetchData cache key fetchFn s =
     (if refIsFetching s key then s
      else
        let s1 = cacheRead cache key fetchFn s;
            s2 = setQueryStore (LoadingUpdater key fetchFn) s1
        in s2\<lparr>awaiting := awaiting s2 @ [(key, fetchFn)], calls := calls s2 @ [(key, fetchFn)]\<rparr>)"

text \<open>
  How the promise of a fetch function settles: it resolves with \<^verbatim>\<open>{ data }\<close> or it
  rejects with an arbitrary value.
\<close>

datatype 'v outcome = Resolved "'v option" | Rejected "'v option"

text \<open>
  The \<^verbatim>\<open>try\<close> block after the \<^verbatim>\<open>await\<close>: a rejection is thrown at the \<^verbatim>\<open>await\<close> (\<open>Inl\<close>);
  otherwise the cache is written, if there is one, and the success write is queued.
\<close>

definition tryBlock ::
  "('c, 'v) CachePlugin option \<Rightarrow> string \<Rightarrow> 'p \<Rightarrow> 'v outcome \<Rightarrow> ('v, 'p, 'c) provider
     \<Rightarrow> 'v option + ('v, 'p, 'c) provider" where
  "tryBlock cache key fetchFn out s =
     (case out of
        Rejected e \<Rightarrow> Inl e
      | Resolved d \<Rightarrow>
          Inr (setQueryStore (SuccessUpdater key d fetchFn)
                 (case cache of
                    None \<Rightarrow> s
                  | Some c \<Rightarrow> s\<lparr>cacheState := cache_set c (cacheState s) key d\<rparr>)))"

definition catchBlock :: "string \<Rightarrow> 'p \<Rightarrow> 'v option \<Rightarrow> ('v, 'p, 'c) provider \<Rightarrow> ('v, 'p, 'c) provider" where
  "catchBlock key fetchFn e s = setQueryStore (ErrorUpdater key e fetchFn) s"

definition resume ::
  "('c, 'v) CachePlugin option \<Rightarrow> string \<Rightarrow> 'p \<Rightarrow> 'v outcome \<Rightarrow> ('v, 'p, 'c) provider
     \<Rightarrow> ('v, 'p, 'c) provider" where
  "resume cache key fetchFn out s =
     (case tryBlock cache key fetchFn out s of
        Inl e \<Rightarrow> catchBlock key fetchFn e s
      | Inr s' \<Rightarrow> s')"

text \<open>The \<open>i\<close>-th suspended call of \<^verbatim>\<open>fetchData\<close> resumes when its promise settles.\<close>

definition settle ::
  "('c, 'v) CachePlugin option \<Rightarrow> nat \<Rightarrow> 'v outcome \<Rightarrow> ('v, 'p, 'c) provider \<Rightarrow> ('v, 'p, 'c) provider" where
  "settle cache i out s =
     (if i < length (awaiting s)
      then
        (case awaiting s ! i of
           (key, fetchFn) \<Rightarrow>
             resume cache key fetchFn out
               (s\<lparr>awaiting := take i (awaiting s) @ drop (Suc i) (awaiting s)\<rparr>))
      else s)"

subsection \<open>What can happen to a provider\<close>

datatype ('v, 'p) event =
  Invoke string 'p
  | Settle nat "'v outcome"
  | Render
  | Sync

fun step ::
  "('c, 'v) CachePlugin option \<Rightarrow> ('v, 'p) event \<Rightarrow> ('v, 'p, 'c) provider \<Rightarrow> ('v, 'p, 'c) provider" where
  "step cache (Invoke key fetchFn) s = fetchData cache key fetchFn s"
| "step cache (Settle i out) s = settle cache i out s"
| "step cache Render s = render s"
| "step cache Sync s = syncRef s"

fun run ::
  "('c, 'v) CachePlugin option \<Rightarrow> ('v, 'p) event list \<Rightarrow> ('v, 'p, 'c) provider \<Rightarrow> ('v, 'p, 'c) provider" where
  "run cache [] s = s"
| "run cache (ev # evs) s = run cache evs (step cache ev s)"

fun invokedKeys :: "('v, 'p) event list \<Rightarrow> string set" where
  "invokedKeys [] = {}"
| "invokedKeys (Invoke key fetchFn # evs) = insert key (invokedKeys evs)"
| "invokedKeys (ev # evs) = invokedKeys evs"

subsection \<open>useQuery.ts\<close>

datatype js_error = JSError string

definition defaultState :: "string \<Rightarrow> 'p \<Rightarrow> ('v, 'p) QueryState" where
  "defaultState key fetchFn =
     \<lparr>status = Idle, data = None, error = None, isFetching = False, refetch = (key, fetchFn)\<rparr>"

text \<open>
  The condition of the effect of \<^verbatim>\<open>useQuery\<close>: no record, an idle one, or a loading one that
  is not fetching.
\<close>

definition shouldFetch :: "('v, 'p) QueryState option \<Rightarrow> bool" where
  "shouldFetch currentQuery =
     (case currentQuery of
        None \<Rightarrow> True
      | Some q \<Rightarrow> status q = Idle \<or> (status q = Loading \<and> \<not> isFetching q))"

text \<open>
  What the hook returns: \<^verbatim>\<open>currentQuery || defaultState\<close>. The declared type is
  \<^verbatim>\<open>QueryState\<close>, but \<^verbatim>\<open>queryStore[key]\<close> is a built-in for a key that only names a member of
  \<^verbatim>\<open>Object.prototype\<close>.
\<close>

datatype ('v, 'p) returned = State "('v, 'p) QueryState" | BuiltIn string

text \<open>
  The body of the hook. The context is \<^verbatim>\<open>undefined\<close> outside a provider (\<open>None\<close>). The
  result is what the hook returns and the provider after the effect has run. A built-in is
  truthy and has no property \<^verbatim>\<open>status\<close>, so the condition of the effect is false on it.
\<close>

definition useQuery ::
  "('c, 'v) CachePlugin option \<Rightarrow> ('v, 'p, 'c) provider option \<Rightarrow> string \<Rightarrow> 'p
     \<Rightarrow> js_error + (('v, 'p) returned \<times> ('v, 'p, 'c) provider)" where
  "useQuery cache context key fetchFn =
     (case context of
        None \<Rightarrow> Inl (JSError ''useQuery must be used within a QueryProvider'')
      | Some s \<Rightarrow>
          (case getMember (queryStore s) key of
             ObjectPrototypeMember n \<Rightarrow> Inr (BuiltIn n, s)
           | Undefined \<Rightarrow> Inr (State (defaultState key fetchFn), fetchData cache key fetchFn s)
           | RecordAt a \<Rightarrow>
               (let currentQuery = lookup (heap s) (queryStore s) key;
                    queryState =
                      (case currentQuery of None \<Rightarrow> defaultState key fetchFn | Some q \<Rightarrow> q)
                in Inr (State queryState,
                        if shouldFetch currentQuery then fetchData cache key fetchFn s else s))))"

subsection \<open>Notions used in the statements\<close>

text \<open>The record a reader of the store finds under a key.\<close>

definition readQuery :: "('v, 'p, 'c) provider \<Rightarrow> string \<Rightarrow> ('v, 'p) QueryState option" where
  "readQuery s key = lookup (heap s) (queryStore s) key"

text \<open>The heap and the store that the next render computes.\<close>

definition rendered :: "('v, 'p, 'c) provider \<Rightarrow> ('v, 'p) objects \<times> QueryStore" where
  "rendered s = applyUpdaters (pending s) (heap s, queryStore s)"

text \<open>The record a key reads as once one updater has run.\<close>

definition readAfter ::
  "('v, 'p) updater \<Rightarrow> ('v, 'p) objects \<Rightarrow> QueryStore \<Rightarrow> string \<Rightarrow> ('v, 'p) QueryState option" where
  "readAfter u h store key = (case applyUpdater u (h, store) of (h', store') \<Rightarrow> lookup h' store' key)"

text \<open>Every reference held by the store points into the heap.\<close>

definition wellFormed :: "('v, 'p, 'c) provider \<Rightarrow> bool" where
  "wellFormed s = (\<forall>key a. queryStore s key = Some a \<longrightarrow> a < length (records (heap s)))"

text \<open>At most one of \<^verbatim>\<open>data\<close> and \<^verbatim>\<open>error\<close> is populated.\<close>

definition exclusive :: "('v, 'p) QueryState \<Rightarrow> bool" where
  "exclusive r = (data r = None \<or> error r = None)"

text \<open>The key an updater closes over.\<close>

fun updaterKey :: "('v, 'p) updater \<Rightarrow> string" where
  "updaterKey (CachedUpdater key cachedData fetchFn) = key"
| "updaterKey (LoadingUpdater key fetchFn) = key"
| "updaterKey (SuccessUpdater key d fetchFn) = key"
| "updaterKey (ErrorUpdater key e fetchFn) = key"

text \<open>All keys the provider knows of, in the store, in the queue or suspended, lie in \<open>K\<close>.\<close>

definition keysWithin :: "string set \<Rightarrow> ('v, 'p, 'c) provider \<Rightarrow> bool" where
  "keysWithin K s =
     (dom (queryStore s) \<subseteq> K \<and> updaterKey ` set (pending s) \<subseteq> K \<and> fst ` set (awaiting s) \<subseteq> K)"

subsection \<open>Example runs\<close>

text \<open>
  A provider without cache on which \<^verbatim>\<open>fetchData("users", f)\<close> has just been called; the
  same provider after the fetch has resolved with the value 7, the store has been rendered
  and the ref synchronised; a provider whose in-memory cache holds 5 under \<^verbatim>\<open>"users"\<close>; a
  provider with an empty in-memory cache on which \<^verbatim>\<open>fetchData("users", f)\<close> has just been
  called; and a provider whose in-memory cache holds 5 under \<^verbatim>\<open>"toString"\<close>. The fetch
  function \<^verbatim>\<open>f\<close> is the number 0.
\<close>

definition started :: "(nat, nat, unit) provider" where
  "started = run None [Invoke ''users'' 0] (QueryProvider ())"

definition succeeded :: "(nat, nat, unit) provider" where
  "succeeded =
     run None [Invoke ''users'' 0, Render, Settle 0 (Resolved (Some 7)), Render, Sync]
       (QueryProvider ())"

definition cached :: "(nat, nat, string \<rightharpoonup> nat option) provider" where
  "cached = QueryProvider [''users'' \<mapsto> Some 5]"

definition startedWithCache :: "(nat, nat, string \<rightharpoonup> nat option) provider" where
  "startedWithCache = fetchData (Some InMemoryCache) ''users'' 0 (QueryProvider Map.empty)"

definition cachedToString :: "(nat, nat, string \<rightharpoonup> nat option) provider" where
  "cachedToString = QueryProvider [''toString'' \<mapsto> Some 5]"

text \<open>A provider that has just been mounted, without cache.\<close>

definition fresh :: "(nat, nat, unit) provider" where
  "fresh = QueryProvider ()"

section \<open>The cache plugin\<close>

text \<open>
  C10. For the in-memory cache: \<^verbatim>\<open>get(k)\<close> after \<^verbatim>\<open>set(k, v)\<close> returns \<open>v\<close>; \<^verbatim>\<open>get(k)\<close> after
  \<^verbatim>\<open>delete(k)\<close> returns \<^verbatim>\<open>undefined\<close>; and neither \<^verbatim>\<open>set(k, v)\<close> nor \<^verbatim>\<open>delete(k)\<close> changes
  what \<^verbatim>\<open>get(k')\<close> returns for a key \<open>k'\<close> other than \<open>k\<close>.
\<close>

theorem InMemoryCache_laws:
  "cache_get InMemoryCache (cache_set InMemoryCache store k v) k = v
   \<and> cache_get InMemoryCache (cache_delete InMemoryCache store k) k = None
   \<and> (k' \<noteq> k \<longrightarrow>
        cache_get InMemoryCache (cache_set InMemoryCache store k v) k'
          = cache_get InMemoryCache store k'
        \<and> cache_get InMemoryCache (cache_delete InMemoryCache store k) k'
          = cache_get InMemoryCache store k')"
  by (simp add: InMemoryCache_def InMemoryCache_get_def InMemoryCache_set_def
      InMemoryCache_delete_def)

theorem InMemoryCache_laws_witness:
  "cache_get InMemoryCache (cache_set InMemoryCache [''a'' \<mapsto> Some (1::nat)] ''b'' (Some 2)) ''b'' = Some 2
   \<and> cache_get InMemoryCache (cache_delete InMemoryCache [''a'' \<mapsto> Some (1::nat)] ''b'') ''b'' = None
   \<and> ''a'' \<noteq> ''b''
   \<and> cache_get InMemoryCache (cache_set InMemoryCache [''a'' \<mapsto> Some (1::nat)] ''b'' (Some 2)) ''a'' = Some 1
   \<and> cache_get InMemoryCache (cache_delete InMemoryCache [''a'' \<mapsto> Some (1::nat)] ''b'') ''a'' = Some 1"
  using InMemoryCache_laws [of "[''a'' \<mapsto> Some (1::nat)]" "''b''" "Some 2" "''a''"]
  by (simp add: InMemoryCache_def InMemoryCache_get_def)

section \<open>Running the queued updaters\<close>

lemmas engine_defs =
  QueryProvider_def fetchData_def refIsFetching_def isFetchingOf_def getMember_def
  objectPrototypeNames_def lookup_def cacheRead_def setQueryStore_def render_def settle_def
  resume_def tryBlock_def catchBlock_def syncRef_def readQuery_def Let_def

lemma lookup_entry:
  "lookup h store key =
     (case store key of
        None \<Rightarrow> None
      | Some a \<Rightarrow> if a < length (records h) then Some (records h ! a) else None)"
  by (simp add: lookup_def getMember_def split: option.splits)

lemma getMember_plain:
  "key \<notin> set objectPrototypeNames \<Longrightarrow>
     getMember store key = (case store key of None \<Rightarrow> Undefined | Some a \<Rightarrow> RecordAt a)"
  by (simp add: getMember_def split: option.splits)

lemma applyUpdaters_append:
  "applyUpdaters (us @ vs) hs = applyUpdaters vs (applyUpdaters us hs)"
  by (induction us arbitrary: hs) simp_all

lemma heap_render: "heap (render s) = fst (rendered s)"
  and queryStore_render: "queryStore (render s) = snd (rendered s)"
  by (simp_all add: render_def rendered_def split: prod.splits)

lemma rendered_setQueryStore:
  "rendered (setQueryStore u s) = applyUpdater u (rendered s)"
  by (simp add: rendered_def setQueryStore_def applyUpdaters_append)

lemma rendered_awaiting_update: "rendered (s\<lparr>awaiting := x\<rparr>) = rendered s"
  by (simp add: rendered_def)

lemma readQuery_render:
  "readQuery (render s) key = (case rendered s of (h, store) \<Rightarrow> lookup h store key)"
  by (simp add: readQuery_def heap_render queryStore_render split: prod.splits)

lemma lookup_new:
  "lookup (h\<lparr>records := records h @ [r]\<rparr>) (store(key \<mapsto> length (records h))) key = Some r"
  by (simp add: lookup_entry)

lemma lookup_in_heap: "lookup h store key = Some r \<Longrightarrow> r \<in> set (records h)"
  by (auto simp: lookup_entry split: option.splits if_splits)

lemma lookup_applyUpdater_Loading:
  assumes "\<forall>a. store key = Some a \<longrightarrow> a < length (records h)"
    and "key \<notin> set objectPrototypeNames"
  shows "(case applyUpdater (LoadingUpdater key fetchFn) (h, store) of (h', store') \<Rightarrow> lookup h' store' key)
     = Some (case lookup h store key of
               None \<Rightarrow> \<lparr>status = Loading, data = None, error = None, isFetching = True,
                         refetch = (key, fetchFn)\<rparr>
             | Some r \<Rightarrow> r\<lparr>isFetching := True\<rparr>)"
  using assms by (auto simp: lookup_entry getMember_plain split: option.splits)

subsection \<open>What fetchData and its resumption change\<close>

lemma heap_cacheRead: "heap (cacheRead cache key fetchFn s) = heap s"
  and awaiting_cacheRead: "awaiting (cacheRead cache key fetchFn s) = awaiting s"
  and queryStore_cacheRead: "queryStore (cacheRead cache key fetchFn s) = queryStore s"
  and calls_cacheRead: "calls (cacheRead cache key fetchFn s) = calls s"
  by (simp_all add: cacheRead_def setQueryStore_def split: option.splits member.splits)

lemma heap_fetchData: "heap (fetchData cache key fetchFn s) = heap s"
  and queryStore_fetchData: "queryStore (fetchData cache key fetchFn s) = queryStore s"
  by (simp_all add: fetchData_def heap_cacheRead queryStore_cacheRead setQueryStore_def Let_def)

lemma heap_settle: "heap (settle cache i out s) = heap s"
  and queryStore_settle: "queryStore (settle cache i out s) = queryStore s"
  by (simp_all add: settle_def resume_def tryBlock_def catchBlock_def setQueryStore_def
      split: prod.splits outcome.splits option.splits)

lemma pending_cacheRead:
  "updaterKey ` set (pending (cacheRead cache key fetchFn s))
     \<subseteq> insert key (updaterKey ` set (pending s))"
  by (simp add: cacheRead_def setQueryStore_def subset_insertI split: option.splits member.splits)

lemma cacheRead_hit:
  assumes "getMember (queryStoreRef s) key = Undefined"
    and "cache_get c (cacheState s) key = Some V"
  shows "cacheRead (Some c) key fetchFn s = setQueryStore (CachedUpdater key V fetchFn) s"
  using assms by (simp add: cacheRead_def)

lemma refIsFetching_absent:
  "getMember (queryStoreRef s) key = Undefined \<Longrightarrow> \<not> refIsFetching s key"
  by (simp add: refIsFetching_def isFetchingOf_def)

lemma fetchData_suppressed: "refIsFetching s key \<Longrightarrow> fetchData cache key fetchFn s = s"
  by (simp add: fetchData_def)

lemma pending_fetchData:
  "\<not> refIsFetching s key \<Longrightarrow>
     pending (fetchData cache key fetchFn s)
       = pending (cacheRead cache key fetchFn s) @ [LoadingUpdater key fetchFn]"
  by (simp add: fetchData_def Let_def setQueryStore_def)

lemma awaiting_fetchData:
  "\<not> refIsFetching s key \<Longrightarrow>
     awaiting (fetchData cache key fetchFn s) = awaiting s @ [(key, fetchFn)]"
  by (simp add: fetchData_def Let_def setQueryStore_def awaiting_cacheRead)

lemma calls_fetchData:
  "\<not> refIsFetching s key \<Longrightarrow>
     calls (fetchData cache key fetchFn s) = calls s @ [(key, fetchFn)]"
  by (simp add: fetchData_def Let_def setQueryStore_def calls_cacheRead)

lemma rendered_fetchData:
  assumes "\<not> refIsFetching s key"
  shows "rendered (fetchData cache key fetchFn s)
           = applyUpdater (LoadingUpdater key fetchFn) (rendered (cacheRead cache key fetchFn s))"
  using assms
  by (simp add: fetchData_def Let_def rendered_def setQueryStore_def applyUpdaters_append)

lemma settle_at:
  assumes "i < length (awaiting s)" and "awaiting s ! i = (key, fetchFn)"
  shows "settle cache i out s
           = resume cache key fetchFn out
               (s\<lparr>awaiting := take i (awaiting s) @ drop (Suc i) (awaiting s)\<rparr>)"
  using assms by (simp add: settle_def)

lemma rendered_resume_Resolved:
  "rendered (resume cache key fetchFn (Resolved d) s)
     = applyUpdater (SuccessUpdater key d fetchFn) (rendered s)"
  by (cases cache) (simp_all add: resume_def tryBlock_def rendered_def setQueryStore_def applyUpdaters_append)

lemma rendered_resume_Rejected:
  "rendered (resume cache key fetchFn (Rejected e) s)
     = applyUpdater (ErrorUpdater key e fetchFn) (rendered s)"
  by (simp add: resume_def tryBlock_def catchBlock_def rendered_def setQueryStore_def applyUpdaters_append)

lemma readQuery_settle_Resolved:
  assumes "i < length (awaiting s)" and "awaiting s ! i = (key, fetchFn)"
  shows "readQuery (render (settle cache i (Resolved W) s)) key
           = Some \<lparr>status = Success, data = W, error = None, isFetching = False,
                   refetch = (key, fetchFn)\<rparr>"
proof -
  obtain h store where r: "rendered s = (h, store)" by (cases "rendered s")
  show ?thesis
    by (simp add: settle_at [OF assms] readQuery_render rendered_resume_Resolved
        rendered_awaiting_update r lookup_new)
qed

lemma cacheState_settle_Resolved:
  assumes "i < length (awaiting s)" and "awaiting s ! i = (key, fetchFn)"
  shows "cacheState (settle cache i (Resolved W) s)
           = (case cache of None \<Rightarrow> cacheState s | Some c \<Rightarrow> cache_set c (cacheState s) key W)"
  by (cases cache) (simp_all add: settle_at [OF assms] resume_def tryBlock_def setQueryStore_def)

section \<open>Invariants of a provider\<close>

subsection \<open>References point into the heap\<close>

lemma applyUpdater_valid:
  assumes "\<forall>key a. store key = Some a \<longrightarrow> a < length (records h)"
    and "applyUpdater u (h, store) = (h', store')"
  shows "\<forall>key a. store' key = Some a \<longrightarrow> a < length (records h')"
  using assms
  by (cases u) (auto split: option.splits if_splits member.splits intro!: less_SucI)

lemma applyUpdaters_valid:
  assumes "\<forall>key a. store key = Some a \<longrightarrow> a < length (records h)"
    and "applyUpdaters us (h, store) = (h', store')"
  shows "\<forall>key a. store' key = Some a \<longrightarrow> a < length (records h')"
  using assms
proof (induction us arbitrary: h store)
  case Nil
  then show ?case by simp
next
  case (Cons u us)
  obtain h1 store1 where u: "applyUpdater u (h, store) = (h1, store1)"
    by (cases "applyUpdater u (h, store)")
  from Cons.prems(1) u have "\<forall>key a. store1 key = Some a \<longrightarrow> a < length (records h1)"
    by (rule applyUpdater_valid)
  moreover from Cons.prems(2) u have "applyUpdaters us (h1, store1) = (h', store')" by simp
  ultimately show ?case by (rule Cons.IH)
qed

lemma rendered_valid:
  assumes "wellFormed s" and "rendered s = (h, store)"
  shows "\<forall>key a. store key = Some a \<longrightarrow> a < length (records h)"
  using assms applyUpdaters_valid [of "queryStore s" "heap s" "pending s" h store]
  by (simp add: wellFormed_def rendered_def)

lemma wellFormed_cacheRead: "wellFormed (cacheRead cache key fetchFn s) = wellFormed s"
  by (simp add: wellFormed_def heap_cacheRead queryStore_cacheRead)

lemma wellFormed_step: "wellFormed s \<Longrightarrow> wellFormed (step cache ev s)"
proof (cases ev)
  case Render
  assume wf: "wellFormed s"
  obtain h store where r: "rendered s = (h, store)" by (cases "rendered s")
  from wf r have "\<forall>key a. store key = Some a \<longrightarrow> a < length (records h)" by (rule rendered_valid)
  then show ?thesis
    by (simp add: Render wellFormed_def heap_render queryStore_render r)
qed (simp_all add: wellFormed_def heap_fetchData queryStore_fetchData heap_settle
      queryStore_settle syncRef_def)

lemma wellFormed_run: "wellFormed s \<Longrightarrow> wellFormed (run cache evs s)"
  by (induction evs arbitrary: s) (simp_all add: wellFormed_step)

lemma wellFormed_QueryProvider: "wellFormed (QueryProvider c)"
  by (simp add: wellFormed_def QueryProvider_def)

subsection \<open>No record holds both data and an error\<close>

lemma exclusive_applyUpdater:
  assumes "\<forall>r \<in> set (records h). exclusive r" and "applyUpdater u (h, store) = (h', store')"
  shows "\<forall>r \<in> set (records h'). exclusive r"
proof (cases u)
  case (LoadingUpdater key fetchFn)
  show ?thesis
  proof (cases "getMember store key")
    case Undefined
    with assms LoadingUpdater show ?thesis by (auto simp: exclusive_def)
  next
    case (ObjectPrototypeMember n)
    with assms LoadingUpdater show ?thesis by auto
  next
    case (RecordAt a)
    with assms(2) LoadingUpdater
    have h': "records h' = (records h)[a := (records h ! a)\<lparr>isFetching := True\<rparr>]" by auto
    show ?thesis
    proof (cases "a < length (records h)")
      case True
      then have "exclusive ((records h ! a)\<lparr>isFetching := True\<rparr>)"
        using assms(1) by (simp add: exclusive_def)
      with assms(1) show ?thesis
        unfolding h' using set_update_subset_insert [of "records h" a] by blast
    next
      case False
      then have "records h' = records h" unfolding h' by (simp add: list_update_beyond)
      with assms(1) show ?thesis by simp
    qed
  qed
qed (use assms in \<open>auto simp: exclusive_def\<close>)

lemma exclusive_applyUpdaters:
  assumes "\<forall>r \<in> set (records h). exclusive r" and "applyUpdaters us (h, store) = (h', store')"
  shows "\<forall>r \<in> set (records h'). exclusive r"
  using assms
proof (induction us arbitrary: h store)
  case Nil
  then show ?case by simp
next
  case (Cons u us)
  obtain h1 store1 where u: "applyUpdater u (h, store) = (h1, store1)"
    by (cases "applyUpdater u (h, store)")
  from Cons.prems(1) u have "\<forall>r \<in> set (records h1). exclusive r" by (rule exclusive_applyUpdater)
  moreover from Cons.prems(2) u have "applyUpdaters us (h1, store1) = (h', store')" by simp
  ultimately show ?case by (rule Cons.IH)
qed

lemma exclusive_step:
  assumes "\<forall>r \<in> set (records (heap s)). exclusive r"
  shows "\<forall>r \<in> set (records (heap (step cache ev s))). exclusive r"
proof (cases ev)
  case Render
  obtain h store where r: "applyUpdaters (pending s) (heap s, queryStore s) = (h, store)"
    by (cases "applyUpdaters (pending s) (heap s, queryStore s)")
  from assms r have "\<forall>r \<in> set (records h). exclusive r" by (rule exclusive_applyUpdaters)
  then show ?thesis by (simp add: Render render_def r)
qed (use assms in \<open>simp_all add: heap_fetchData heap_settle syncRef_def\<close>)

lemma exclusive_run:
  "\<forall>r \<in> set (records (heap s)). exclusive r \<Longrightarrow>
     \<forall>r \<in> set (records (heap (run cache evs s))). exclusive r"
proof (induction evs arbitrary: s)
  case Nil
  then show ?case by simp
next
  case (Cons ev evs)
  from Cons.prems have "\<forall>r \<in> set (records (heap (step cache ev s))). exclusive r"
    by (rule exclusive_step)
  then have "\<forall>r \<in> set (records (heap (run cache evs (step cache ev s)))). exclusive r"
    by (rule Cons.IH)
  then show ?case by simp
qed

subsection \<open>Only invoked keys are known\<close>

lemma dom_applyUpdater:
  "applyUpdater u (h, store) = (h', store') \<Longrightarrow> dom store' \<subseteq> insert (updaterKey u) (dom store)"
  by (cases u) (auto split: option.splits if_splits member.splits)

lemma dom_applyUpdaters:
  "applyUpdaters us (h, store) = (h', store') \<Longrightarrow> dom store' \<subseteq> dom store \<union> updaterKey ` set us"
proof (induction us arbitrary: h store)
  case Nil
  then show ?case by simp
next
  case (Cons u us)
  obtain h1 store1 where u: "applyUpdater u (h, store) = (h1, store1)"
    by (cases "applyUpdater u (h, store)")
  then have "dom store1 \<subseteq> insert (updaterKey u) (dom store)" by (rule dom_applyUpdater)
  moreover from Cons.prems u have "applyUpdaters us (h1, store1) = (h', store')" by simp
  then have "dom store' \<subseteq> dom store1 \<union> updaterKey ` set us" by (rule Cons.IH)
  moreover have "updaterKey ` set (u # us) = insert (updaterKey u) (updaterKey ` set us)"
    by simp
  ultimately show ?case by blast
qed

lemma keysWithin_fetchData:
  assumes "keysWithin K s" and "key \<in> K"
  shows "keysWithin K (fetchData cache key fetchFn s)"
proof (cases "refIsFetching s key")
  case True
  with assms show ?thesis by (simp add: fetchData_def)
next
  case False
  from assms(1) have 1: "dom (queryStore s) \<subseteq> K" and 2: "updaterKey ` set (pending s) \<subseteq> K"
    and 3: "fst ` set (awaiting s) \<subseteq> K"
    unfolding keysWithin_def by blast+
  have "updaterKey ` set (pending (cacheRead cache key fetchFn s)) \<subseteq> K"
    using pending_cacheRead [of cache key fetchFn s] 2 assms(2) by blast
  with assms(2) have "updaterKey ` set (pending (fetchData cache key fetchFn s)) \<subseteq> K"
    by (simp add: pending_fetchData [OF False])
  moreover from 3 assms(2) have "fst ` set (awaiting (fetchData cache key fetchFn s)) \<subseteq> K"
    by (simp add: awaiting_fetchData [OF False])
  moreover from 1 have "dom (queryStore (fetchData cache key fetchFn s)) \<subseteq> K"
    by (simp add: queryStore_fetchData)
  ultimately show ?thesis unfolding keysWithin_def by blast
qed

lemma keysWithin_resume:
  assumes "keysWithin K s" and "key \<in> K"
  shows "keysWithin K (resume cache key fetchFn out s)"
proof (cases out)
  case (Resolved d)
  with assms show ?thesis
    by (cases cache) (simp_all add: keysWithin_def resume_def tryBlock_def setQueryStore_def)
next
  case (Rejected e)
  with assms show ?thesis
    by (simp add: keysWithin_def resume_def tryBlock_def catchBlock_def setQueryStore_def)
qed

lemma keysWithin_settle:
  assumes "keysWithin K s"
  shows "keysWithin K (settle cache i out s)"
proof (cases "i < length (awaiting s)")
  case False
  with assms show ?thesis by (simp add: settle_def)
next
  case True
  obtain key fetchFn where kf: "awaiting s ! i = (key, fetchFn)" by (cases "awaiting s ! i")
  from True have "awaiting s ! i \<in> set (awaiting s)" by simp
  then have "fst (awaiting s ! i) \<in> fst ` set (awaiting s)" by (rule imageI)
  with kf have "key \<in> fst ` set (awaiting s)" by simp
  with assms have key: "key \<in> K" unfolding keysWithin_def by blast
  have "set (take i (awaiting s)) \<subseteq> set (awaiting s)"
    and "set (drop (Suc i) (awaiting s)) \<subseteq> set (awaiting s)"
    by (rule set_take_subset, rule set_drop_subset)
  then have "fst ` set (take i (awaiting s) @ drop (Suc i) (awaiting s)) \<subseteq> fst ` set (awaiting s)"
    by (simp add: image_Un image_mono)
  moreover from assms have "fst ` set (awaiting s) \<subseteq> K" unfolding keysWithin_def by blast
  ultimately have "fst ` set (take i (awaiting s) @ drop (Suc i) (awaiting s)) \<subseteq> K"
    by (rule subset_trans)
  with assms have "keysWithin K (s\<lparr>awaiting := take i (awaiting s) @ drop (Suc i) (awaiting s)\<rparr>)"
    unfolding keysWithin_def by simp
  then have "keysWithin K (resume cache key fetchFn out
      (s\<lparr>awaiting := take i (awaiting s) @ drop (Suc i) (awaiting s)\<rparr>))"
    using key by (rule keysWithin_resume)
  then show ?thesis by (simp add: settle_at [OF True kf])
qed

lemma keysWithin_render:
  assumes "keysWithin K s"
  shows "keysWithin K (render s)"
proof -
  obtain h store where r: "applyUpdaters (pending s) (heap s, queryStore s) = (h, store)"
    by (cases "applyUpdaters (pending s) (heap s, queryStore s)")
  then have "dom store \<subseteq> dom (queryStore s) \<union> updaterKey ` set (pending s)"
    by (rule dom_applyUpdaters)
  moreover from assms have "dom (queryStore s) \<union> updaterKey ` set (pending s) \<subseteq> K"
    unfolding keysWithin_def by simp
  ultimately have "dom store \<subseteq> K" by (rule subset_trans)
  with assms show ?thesis
    by (simp add: keysWithin_def render_def r)
qed

lemma keysWithin_step:
  assumes "keysWithin K s" and "invokedKeys [ev] \<subseteq> K"
  shows "keysWithin K (step cache ev s)"
proof (cases ev)
  case (Invoke key fetchFn)
  with assms(2) have "key \<in> K" by simp
  with assms(1) have "keysWithin K (fetchData cache key fetchFn s)"
    by (rule keysWithin_fetchData)
  with Invoke show ?thesis by simp
next
  case (Settle i out)
  from assms(1) have "keysWithin K (settle cache i out s)" by (rule keysWithin_settle)
  with Settle show ?thesis by simp
next
  case Render
  from assms(1) have "keysWithin K (render s)" by (rule keysWithin_render)
  with Render show ?thesis by simp
next
  case Sync
  from assms(1) have "keysWithin K (syncRef s)" by (simp add: keysWithin_def syncRef_def)
  with Sync show ?thesis by simp
qed

lemma invokedKeys_Cons: "invokedKeys (ev # evs) = invokedKeys [ev] \<union> invokedKeys evs"
  by (cases ev) simp_all

lemma keysWithin_run:
  assumes "keysWithin K s" and "invokedKeys evs \<subseteq> K"
  shows "keysWithin K (run cache evs s)"
  using assms
proof (induction evs arbitrary: s)
  case Nil
  then show ?case by simp
next
  case (Cons ev evs)
  from Cons.prems(2) have 1: "invokedKeys [ev] \<subseteq> K" and 2: "invokedKeys evs \<subseteq> K"
    unfolding invokedKeys_Cons [of ev evs] by blast+
  from Cons.prems(1) 1 have "keysWithin K (step cache ev s)" by (rule keysWithin_step)
  then have "keysWithin K (run cache evs (step cache ev s))" using 2 by (rule Cons.IH)
  then show ?case by simp
qed

lemma keysWithin_QueryProvider: "keysWithin K (QueryProvider c)"
  by (simp add: keysWithin_def QueryProvider_def)


subsection \<open>Built-in objects stay untouched while no key names one\<close>

lemma marked_applyUpdater:
  assumes "updaterKey u \<notin> set objectPrototypeNames"
    and "applyUpdater u (h, store) = (h', store')"
  shows "marked h' = marked h"
  using assms by (cases u) (auto simp: getMember_plain split: option.splits)

lemma marked_applyUpdaters:
  assumes "\<forall>u \<in> set us. updaterKey u \<notin> set objectPrototypeNames"
    and "applyUpdaters us (h, store) = (h', store')"
  shows "marked h' = marked h"
  using assms
proof (induction us arbitrary: h store)
  case Nil
  then show ?case by simp
next
  case (Cons u us)
  obtain h1 store1 where u: "applyUpdater u (h, store) = (h1, store1)"
    by (cases "applyUpdater u (h, store)")
  from Cons.prems(1) have "updaterKey u \<notin> set objectPrototypeNames" by simp
  then have "marked h1 = marked h" using u by (rule marked_applyUpdater)
  moreover from Cons.prems(1) have "\<forall>u \<in> set us. updaterKey u \<notin> set objectPrototypeNames"
    by simp
  moreover from Cons.prems(2) u have "applyUpdaters us (h1, store1) = (h', store')" by simp
  ultimately show ?case using Cons.IH by metis
qed

lemma marked_rendered:
  assumes "keysWithin K s" and "K \<inter> set objectPrototypeNames = {}"
    and "rendered s = (h, store)"
  shows "marked h = marked (heap s)"
proof -
  from assms(1) have "updaterKey ` set (pending s) \<subseteq> K" unfolding keysWithin_def by simp
  with assms(2) have "\<forall>u \<in> set (pending s). updaterKey u \<notin> set objectPrototypeNames"
    by (meson disjoint_iff image_subset_iff)
  then show ?thesis
    using assms(3) unfolding rendered_def by (rule marked_applyUpdaters)
qed

lemma marked_step:
  assumes "keysWithin K s" and "K \<inter> set objectPrototypeNames = {}"
  shows "marked (heap (step cache ev s)) = marked (heap s)"
proof (cases ev)
  case Render
  obtain h store where r: "rendered s = (h, store)" by (cases "rendered s")
  with assms have "marked h = marked (heap s)" by (rule marked_rendered)
  with Render r show ?thesis by (simp add: heap_render)
qed (simp_all add: heap_fetchData heap_settle syncRef_def)

lemma marked_run:
  assumes "keysWithin K s" and "invokedKeys evs \<subseteq> K" and "K \<inter> set objectPrototypeNames = {}"
  shows "marked (heap (run cache evs s)) = marked (heap s)"
  using assms
proof (induction evs arbitrary: s)
  case Nil
  then show ?case by simp
next
  case (Cons ev evs)
  from Cons.prems(2) have 1: "invokedKeys [ev] \<subseteq> K" and 2: "invokedKeys evs \<subseteq> K"
    unfolding invokedKeys_Cons [of ev evs] by blast+
  from Cons.prems(1) 1 have k: "keysWithin K (step cache ev s)" by (rule keysWithin_step)
  from Cons.prems(1,3) have "marked (heap (step cache ev s)) = marked (heap s)"
    by (rule marked_step)
  moreover from k 2 Cons.prems(3)
  have "marked (heap (run cache evs (step cache ev s))) = marked (heap (step cache ev s))"
    by (rule Cons.IH)
  ultimately show ?case by simp
qed

section \<open>fetchData\<close>

subsection \<open>Deduplication\<close>

text \<open>
  C1. A call of \<^verbatim>\<open>fetchData\<close> made while the record of the key is fetching returns at once,
  calls no fetch function and changes nothing, so that at most one call of a fetch function
  is outstanding per key, however many callers invoke. On the code the early exit reads the
  ref, which only the effect after a render brings up to date (\<open>fetchData_suppressed\<close> is the
  exit itself). Two calls for a fresh key with no render in between both pass the check:
  the fetch function is called twice and two calls are outstanding for the one key.
\<close>

theorem fetchData_twice_calls_twice:
  "calls (run None [Invoke ''users'' 0, Invoke ''users'' 0]
            (QueryProvider () :: (nat, nat, unit) provider))
     = [(''users'', 0), (''users'', 0)]
   \<and> awaiting (run None [Invoke ''users'' 0, Invoke ''users'' 0]
            (QueryProvider () :: (nat, nat, unit) provider))
     = [(''users'', 0), (''users'', 0)]"
  by (simp add: engine_defs)

subsection \<open>The loading step\<close>

text \<open>
  C2, as the code has it. Take a provider on which no key that names a member of
  \<^verbatim>\<open>Object.prototype\<close> has been invoked, and a key that names none. A call of \<^verbatim>\<open>fetchData\<close>
  for the key that is not suppressed leaves, once its updaters have run, a record under
  the key with \<^verbatim>\<open>isFetching = true\<close>. Where the cache-read step left no record under the key,
  the record is a new one with status \<^verbatim>\<open>loading\<close> and neither data nor error; where it left
  one, that record keeps its status, data and error and only \<^verbatim>\<open>isFetching\<close> becomes true. No
  built-in object is touched.
\<close>

theorem fetchData_loading_step:
  fixes s :: "('v, 'p, 'c) provider"
  assumes "s = run cache evs (QueryProvider c)"
    and "invokedKeys evs \<inter> set objectPrototypeNames = {}"
    and "key \<notin> set objectPrototypeNames"
    and "\<not> refIsFetching s key"
  shows "readQuery (render (fetchData cache key fetchFn s)) key
           = Some (case readQuery (render (cacheRead cache key fetchFn s)) key of
                     None \<Rightarrow> \<lparr>status = Loading, data = None, error = None, isFetching = True,
                               refetch = (key, fetchFn)\<rparr>
                   | Some r \<Rightarrow> r\<lparr>isFetching := True\<rparr>)
         \<and> marked (heap (render (fetchData cache key fetchFn s))) = {}"
proof
  have wf: "wellFormed s"
    unfolding assms(1) by (intro wellFormed_run wellFormed_QueryProvider)
  obtain h store where r: "rendered (cacheRead cache key fetchFn s) = (h, store)"
    by (cases "rendered (cacheRead cache key fetchFn s)")
  from wf have "wellFormed (cacheRead cache key fetchFn s)"
    by (simp add: wellFormed_cacheRead)
  then have "\<forall>k a. store k = Some a \<longrightarrow> a < length (records h)"
    using r by (rule rendered_valid)
  then have "\<forall>a. store key = Some a \<longrightarrow> a < length (records h)" by blast
  then show "readQuery (render (fetchData cache key fetchFn s)) key
           = Some (case readQuery (render (cacheRead cache key fetchFn s)) key of
                     None \<Rightarrow> \<lparr>status = Loading, data = None, error = None, isFetching = True,
                               refetch = (key, fetchFn)\<rparr>
                   | Some r \<Rightarrow> r\<lparr>isFetching := True\<rparr>)"
    using lookup_applyUpdater_Loading [of store key h fetchFn] assms(3)
    by (simp add: readQuery_render rendered_fetchData [OF assms(4)] r)
next
  let ?K = "insert key (invokedKeys evs)"
  have disj: "?K \<inter> set objectPrototypeNames = {}" using assms(2,3) by simp
  have k0: "keysWithin ?K (QueryProvider c :: ('v, 'p, 'c) provider)"
    by (rule keysWithin_QueryProvider)
  have sub: "invokedKeys evs \<subseteq> ?K" by (rule subset_insertI)
  from k0 sub have k: "keysWithin ?K s" unfolding assms(1) by (rule keysWithin_run)
  from k0 sub disj have "marked (heap s) = marked (heap (QueryProvider c :: ('v, 'p, 'c) provider))"
    unfolding assms(1) by (rule marked_run)
  then have m: "marked (heap s) = {}" by (simp add: QueryProvider_def)
  have "key \<in> ?K" by simp
  with k have k': "keysWithin ?K (fetchData cache key fetchFn s)" by (rule keysWithin_fetchData)
  obtain h store where r: "rendered (fetchData cache key fetchFn s) = (h, store)"
    by (cases "rendered (fetchData cache key fetchFn s)")
  with k' disj have "marked h = marked (heap (fetchData cache key fetchFn s))"
    by (rule marked_rendered)
  with m r show "marked (heap (render (fetchData cache key fetchFn s))) = {}"
    by (simp add: heap_render heap_fetchData)
qed

theorem fetchData_loading_step_witness:
  "succeeded
     = run None [Invoke ''users'' 0, Render, Settle 0 (Resolved (Some 7)), Render, Sync]
         (QueryProvider ())
   \<and> invokedKeys [Invoke ''users'' 0, Render, Settle 0 (Resolved (Some (7::nat))), Render, Sync :: (nat, nat) event]
         \<inter> set objectPrototypeNames = {}
   \<and> ''users'' \<notin> set objectPrototypeNames
   \<and> \<not> refIsFetching succeeded ''users''
   \<and> readQuery (render (fetchData None ''users'' 0 succeeded)) ''users''
       = Some \<lparr>status = Success, data = Some 7, error = None, isFetching = True,
               refetch = (''users'', 0)\<rparr>
   \<and> marked (heap (render (fetchData None ''users'' 0 succeeded))) = {}"
proof -
  have 1: "succeeded
     = run None [Invoke ''users'' 0, Render, Settle 0 (Resolved (Some 7)), Render, Sync]
         (QueryProvider ())"
    by (rule succeeded_def)
  have 2: "invokedKeys [Invoke ''users'' 0, Render, Settle 0 (Resolved (Some (7::nat))), Render, Sync :: (nat, nat) event]
         \<inter> set objectPrototypeNames = {}"
    by (simp add: objectPrototypeNames_def)
  have 3: "''users'' \<notin> set objectPrototypeNames" by (simp add: objectPrototypeNames_def)
  have 4: "\<not> refIsFetching succeeded ''users''"
    by (simp add: succeeded_def engine_defs)
  have 5: "readQuery (render (cacheRead None ''users'' 0 succeeded)) ''users''
       = Some \<lparr>status = Success, data = Some 7, error = None, isFetching = False,
               refetch = (''users'', 0)\<rparr>"
    by (simp add: succeeded_def engine_defs)
  from fetchData_loading_step [OF 1 2 3 4, of 0] 5
  have "readQuery (render (fetchData None ''users'' 0 succeeded)) ''users''
       = Some \<lparr>status = Success, data = Some 7, error = None, isFetching = True,
               refetch = (''users'', 0)\<rparr>
     \<and> marked (heap (render (fetchData None ''users'' 0 succeeded))) = {}"
    by simp
  with 1 2 3 4 show ?thesis by blast
qed

text \<open>
  C2 as stated fails: on a record in the success state a call that is not suppressed leaves
  the status at \<^verbatim>\<open>success\<close>, not \<^verbatim>\<open>loading\<close>.
\<close>

theorem refetch_keeps_status:
  "\<not> refIsFetching succeeded ''users''
   \<and> readQuery succeeded ''users''
       = Some \<lparr>status = Success, data = Some 7, error = None, isFetching = False,
               refetch = (''users'', 0)\<rparr>
   \<and> calls (fetchData None ''users'' 0 succeeded) = [(''users'', 0), (''users'', 0)]
   \<and> readQuery (render (fetchData None ''users'' 0 succeeded)) ''users''
       = Some \<lparr>status = Success, data = Some 7, error = None, isFetching = True,
               refetch = (''users'', 0)\<rparr>
   \<and> map_option status (readQuery (render (fetchData None ''users'' 0 succeeded)) ''users'')
       \<noteq> Some Loading"
  by (simp add: succeeded_def engine_defs)

subsection \<open>The cache read\<close>

text \<open>
  C3. With a cache plugin, no record yet under the key and a defined value \<open>V\<close> in the cache,
  \<^verbatim>\<open>fetchData\<close> publishes a success record with \<^verbatim>\<open>data = V\<close> before the result of the fetch
  function is applied. On the code the cache is read only when
  \<^verbatim>\<open>!queryStoreRef.current[key]\<close>, and under a key that names a member of \<^verbatim>\<open>Object.prototype\<close>
  the store reads as that built-in, which is truthy. For \<^verbatim>\<open>"toString"\<close>, with 5 in the cache
  and no record: the cache read is skipped, the loading mark alone is queued, it creates no
  record and marks the built-in, and the fetch function is called.
\<close>

theorem cache_skipped_for_inherited_key:
  "cache_get InMemoryCache (cacheState cachedToString) ''toString'' = Some 5
   \<and> lookup (heap cachedToString) (queryStoreRef cachedToString) ''toString'' = None
   \<and> readQuery cachedToString ''toString'' = None
   \<and> \<not> refIsFetching cachedToString ''toString''
   \<and> pending (fetchData (Some InMemoryCache) ''toString'' 0 cachedToString)
       = [LoadingUpdater ''toString'' 0]
   \<and> calls (fetchData (Some InMemoryCache) ''toString'' 0 cachedToString) = [(''toString'', 0)]
   \<and> readQuery (render (fetchData (Some InMemoryCache) ''toString'' 0 cachedToString)) ''toString''
       = None
   \<and> marked (heap (render (fetchData (Some InMemoryCache) ''toString'' 0 cachedToString)))
       = {''toString''}"
  by (simp add: cachedToString_def engine_defs InMemoryCache_def InMemoryCache_get_def)

text \<open>
  On a provider on which no key that names a member of \<^verbatim>\<open>Object.prototype\<close> has been
  invoked: where the store that the ref holds reads \<^verbatim>\<open>undefined\<close> under the key, the cached
  value is published as a success record ahead of the loading mark, the fetch function is
  still called, and its result overwrites the record.
\<close>

lemma fetchData_cache_hit:
  assumes "s = run (Some c) evs (QueryProvider c0)"
    and "invokedKeys evs \<inter> set objectPrototypeNames = {}"
    and "getMember (queryStoreRef s) key = Undefined"
    and "cache_get c (cacheState s) key = Some V"
  shows "pending (fetchData (Some c) key fetchFn s)
           = pending s @ [CachedUpdater key V fetchFn, LoadingUpdater key fetchFn]
         \<and> readQuery (render (cacheRead (Some c) key fetchFn s)) key
             = Some \<lparr>status = Success, data = Some V, error = None, isFetching = False,
                     refetch = (key, fetchFn)\<rparr>
         \<and> readQuery (render (fetchData (Some c) key fetchFn s)) key
             = Some \<lparr>status = Success, data = Some V, error = None, isFetching = True,
                     refetch = (key, fetchFn)\<rparr>
         \<and> calls (fetchData (Some c) key fetchFn s) = calls s @ [(key, fetchFn)]
         \<and> awaiting (fetchData (Some c) key fetchFn s) = awaiting s @ [(key, fetchFn)]
         \<and> readQuery (render (settle (Some c) (length (awaiting s)) (Resolved W)
                                 (fetchData (Some c) key fetchFn s))) key
             = Some \<lparr>status = Success, data = W, error = None, isFetching = False,
                     refetch = (key, fetchFn)\<rparr>"
proof -
  let ?s' = "fetchData (Some c) key fetchFn s"
  have nf: "\<not> refIsFetching s key" using assms(3) by (rule refIsFetching_absent)
  have hit: "cacheRead (Some c) key fetchFn s = setQueryStore (CachedUpdater key V fetchFn) s"
    using assms(3,4) by (rule cacheRead_hit)
  obtain h store where r: "rendered s = (h, store)" by (cases "rendered s")
  have 1: "pending ?s' = pending s @ [CachedUpdater key V fetchFn, LoadingUpdater key fetchFn]"
    by (simp add: pending_fetchData [OF nf] hit setQueryStore_def)
  have 2: "readQuery (render (cacheRead (Some c) key fetchFn s)) key
             = Some \<lparr>status = Success, data = Some V, error = None, isFetching = False,
                     refetch = (key, fetchFn)\<rparr>"
    by (simp add: readQuery_render hit rendered_setQueryStore r lookup_new)
  have 3: "readQuery (render ?s') key
             = Some \<lparr>status = Success, data = Some V, error = None, isFetching = True,
                     refetch = (key, fetchFn)\<rparr>"
    by (simp add: readQuery_render rendered_fetchData [OF nf] hit rendered_setQueryStore r
        lookup_entry getMember_def)
  have 4: "calls ?s' = calls s @ [(key, fetchFn)]" using nf by (rule calls_fetchData)
  have 5: "awaiting ?s' = awaiting s @ [(key, fetchFn)]" using nf by (rule awaiting_fetchData)
  have "length (awaiting s) < length (awaiting ?s')" and "awaiting ?s' ! length (awaiting s) = (key, fetchFn)"
    by (simp_all add: 5)
  then have 6: "readQuery (render (settle (Some c) (length (awaiting s)) (Resolved W) ?s')) key
             = Some \<lparr>status = Success, data = W, error = None, isFetching = False,
                     refetch = (key, fetchFn)\<rparr>"
    by (rule readQuery_settle_Resolved)
  from 1 2 3 4 5 6 show ?thesis by (intro conjI)
qed

lemma fetchData_cache_hit_example:
  "getMember (queryStoreRef cached) ''users'' = Undefined
   \<and> cache_get InMemoryCache (cacheState cached) ''users'' = Some 5
   \<and> readQuery (render (cacheRead (Some InMemoryCache) ''users'' 0 cached)) ''users''
       = Some \<lparr>status = Success, data = Some 5, error = None, isFetching = False,
               refetch = (''users'', 0)\<rparr>
   \<and> calls (fetchData (Some InMemoryCache) ''users'' 0 cached) = [(''users'', 0)]
   \<and> readQuery (render (settle (Some InMemoryCache) 0 (Resolved (Some 7))
                           (fetchData (Some InMemoryCache) ''users'' 0 cached))) ''users''
       = Some \<lparr>status = Success, data = Some 7, error = None, isFetching = False,
               refetch = (''users'', 0)\<rparr>"
proof -
  have 1: "getMember (queryStoreRef cached) ''users'' = Undefined"
    by (simp add: cached_def QueryProvider_def getMember_def objectPrototypeNames_def)
  have 2: "cache_get InMemoryCache (cacheState cached) ''users'' = Some 5"
    by (simp add: cached_def QueryProvider_def InMemoryCache_def InMemoryCache_get_def)
  have 3: "calls cached = []" and 4: "awaiting cached = []"
    by (simp_all add: cached_def QueryProvider_def)
  have 5: "cached = run (Some InMemoryCache) [] (QueryProvider [''users'' \<mapsto> Some 5])"
    by (simp add: cached_def)
  have 6: "invokedKeys ([] :: (nat, nat) event list) \<inter> set objectPrototypeNames = {}"
    by simp
  from fetchData_cache_hit [OF 5 6 1 2, of 0 "Some 7"] 1 2 show ?thesis
    by (simp add: 3 4)
qed

subsection \<open>Resolution\<close>

text \<open>
  C4. When the fetch function of a suspended call for a key resolves with \<open>W\<close>, the record of
  the key becomes \<^verbatim>\<open>status = success\<close>, \<^verbatim>\<open>data = W\<close>, \<^verbatim>\<open>isFetching = false\<close>, and a configured
  cache receives \<^verbatim>\<open>set(key, W)\<close>; with the in-memory cache, \<^verbatim>\<open>get(key)\<close> then returns \<open>W\<close>. When
  it rejects, the cache is not written.
\<close>

theorem settle_resolved:
  fixes s :: "('v, 'p, 'c) provider" and t :: "('v, 'p, string \<rightharpoonup> 'v option) provider"
  assumes "i < length (awaiting s)" and "awaiting s ! i = (key, fetchFn)"
  shows "readQuery (render (settle cache i (Resolved W) s)) key
           = Some \<lparr>status = Success, data = W, error = None, isFetching = False,
                   refetch = (key, fetchFn)\<rparr>
         \<and> cacheState (settle cache i (Resolved W) s)
             = (case cache of None \<Rightarrow> cacheState s | Some c \<Rightarrow> cache_set c (cacheState s) key W)
         \<and> cacheState (settle cache i (Rejected E) s) = cacheState s
         \<and> (j < length (awaiting t) \<and> awaiting t ! j = (key, fetchFn) \<longrightarrow>
              cache_get InMemoryCache
                (cacheState (settle (Some InMemoryCache) j (Resolved W) t)) key = W)"
proof (intro conjI impI)
  show "readQuery (render (settle cache i (Resolved W) s)) key
           = Some \<lparr>status = Success, data = W, error = None, isFetching = False,
                   refetch = (key, fetchFn)\<rparr>"
    using assms by (rule readQuery_settle_Resolved)
  show "cacheState (settle cache i (Resolved W) s)
             = (case cache of None \<Rightarrow> cacheState s | Some c \<Rightarrow> cache_set c (cacheState s) key W)"
    using assms by (rule cacheState_settle_Resolved)
  show "cacheState (settle cache i (Rejected E) s) = cacheState s"
    by (simp add: settle_at [OF assms] resume_def tryBlock_def catchBlock_def setQueryStore_def)
next
  assume "j < length (awaiting t) \<and> awaiting t ! j = (key, fetchFn)"
  then have j: "j < length (awaiting t)" and kf: "awaiting t ! j = (key, fetchFn)" by simp_all
  show "cache_get InMemoryCache (cacheState (settle (Some InMemoryCache) j (Resolved W) t)) key = W"
    by (simp add: cacheState_settle_Resolved [OF j kf] InMemoryCache_def InMemoryCache_get_def
        InMemoryCache_set_def)
qed

theorem settle_resolved_witness:
  "0 < length (awaiting startedWithCache)
   \<and> awaiting startedWithCache ! 0 = (''users'', 0)
   \<and> readQuery (render (settle (Some InMemoryCache) 0 (Resolved (Some 7)) startedWithCache))
         ''users''
       = Some \<lparr>status = Success, data = Some 7, error = None, isFetching = False,
               refetch = (''users'', 0)\<rparr>
   \<and> cache_get InMemoryCache (cacheState startedWithCache) ''users'' = None
   \<and> cache_get InMemoryCache
         (cacheState (settle (Some InMemoryCache) 0 (Resolved (Some 7)) startedWithCache))
         ''users''
       = Some 7"
proof -
  have 1: "0 < length (awaiting startedWithCache)"
    by (simp add: startedWithCache_def engine_defs InMemoryCache_def InMemoryCache_get_def)
  have 2: "awaiting startedWithCache ! 0 = (''users'', 0)"
    by (simp add: startedWithCache_def engine_defs InMemoryCache_def InMemoryCache_get_def)
  have 3: "cache_get InMemoryCache (cacheState startedWithCache) ''users'' = None"
    by (simp add: startedWithCache_def engine_defs InMemoryCache_def InMemoryCache_get_def)
  from settle_resolved [OF 1 2, where cache = "Some InMemoryCache" and W = "Some 7"
      and E = None and j = 0 and t = startedWithCache] 1 2 3
  show ?thesis by blast
qed

text \<open>
  C5. When the fetch function of a suspended call rejects with \<open>E\<close>, the rejection is thrown
  inside the \<^verbatim>\<open>try\<close> block and caught: the call ends in the \<^verbatim>\<open>catch\<close> block, and the record of
  the key becomes \<^verbatim>\<open>status = error\<close>, \<^verbatim>\<open>error = E\<close>, \<^verbatim>\<open>isFetching = false\<close>. No fetch function
  is called again: the log of calls is unchanged, the call is no longer suspended, and the
  effect of \<^verbatim>\<open>useQuery\<close> does not fetch on an error record.
\<close>

theorem settle_rejected:
  assumes "i < length (awaiting s)" and "awaiting s ! i = (key, fetchFn)"
  shows "readQuery (render (settle cache i (Rejected E) s)) key
           = Some \<lparr>status = Error, data = None, error = E, isFetching = False,
                   refetch = (key, fetchFn)\<rparr>
         \<and> tryBlock cache key fetchFn (Rejected E)
               (s\<lparr>awaiting := take i (awaiting s) @ drop (Suc i) (awaiting s)\<rparr>) = Inl E
         \<and> settle cache i (Rejected E) s
             = catchBlock key fetchFn E
                 (s\<lparr>awaiting := take i (awaiting s) @ drop (Suc i) (awaiting s)\<rparr>)
         \<and> calls (settle cache i (Rejected E) s) = calls s
         \<and> awaiting (settle cache i (Rejected E) s)
             = take i (awaiting s) @ drop (Suc i) (awaiting s)
         \<and> \<not> shouldFetch (readQuery (render (settle cache i (Rejected E) s)) key)"
proof -
  obtain h store where r: "rendered s = (h, store)" by (cases "rendered s")
  have 1: "readQuery (render (settle cache i (Rejected E) s)) key
           = Some \<lparr>status = Error, data = None, error = E, isFetching = False,
                   refetch = (key, fetchFn)\<rparr>"
    by (simp add: settle_at [OF assms] readQuery_render rendered_resume_Rejected
        rendered_awaiting_update r lookup_new)
  have 2: "tryBlock cache key fetchFn (Rejected E)
               (s\<lparr>awaiting := take i (awaiting s) @ drop (Suc i) (awaiting s)\<rparr>) = Inl E"
    by (simp add: tryBlock_def)
  have 3: "settle cache i (Rejected E) s
             = catchBlock key fetchFn E
                 (s\<lparr>awaiting := take i (awaiting s) @ drop (Suc i) (awaiting s)\<rparr>)"
    by (simp add: settle_at [OF assms] resume_def 2)
  have 4: "calls (settle cache i (Rejected E) s) = calls s"
    by (simp add: 3 catchBlock_def setQueryStore_def)
  have 5: "awaiting (settle cache i (Rejected E) s)
             = take i (awaiting s) @ drop (Suc i) (awaiting s)"
    by (simp add: 3 catchBlock_def setQueryStore_def)
  have 6: "\<not> shouldFetch (readQuery (render (settle cache i (Rejected E) s)) key)"
    by (simp add: 1 shouldFetch_def)
  from 1 2 3 4 5 6 show ?thesis by (intro conjI)
qed

theorem settle_rejected_witness:
  "0 < length (awaiting started)
   \<and> awaiting started ! 0 = (''users'', 0)
   \<and> readQuery (render (settle None 0 (Rejected (Some 3)) started)) ''users''
       = Some \<lparr>status = Error, data = None, error = Some 3, isFetching = False,
               refetch = (''users'', 0)\<rparr>
   \<and> calls (settle None 0 (Rejected (Some 3)) started) = [(''users'', 0)]"
proof -
  have 1: "0 < length (awaiting started)" by (simp add: started_def engine_defs)
  have 2: "awaiting started ! 0 = (''users'', 0)" by (simp add: started_def engine_defs)
  have 3: "calls started = [(''users'', 0)]" by (simp add: started_def engine_defs)
  note w = settle_rejected [OF 1 2, of None "Some 3"]
  from w have "calls (settle None 0 (Rejected (Some 3)) started) = calls started" by blast
  then have 4: "calls (settle None 0 (Rejected (Some 3)) started) = [(''users'', 0)]"
    by (simp only: 3)
  from w 1 2 4 show ?thesis by blast
qed

subsection \<open>Data and error\<close>

text \<open>
  C6. In every record that a store of a provider refers to, at most one of \<^verbatim>\<open>data\<close> and
  \<^verbatim>\<open>error\<close> is populated (\<open>snapshot\<close> is the current store or any earlier one). The default
  state and a newly created loading record populate neither, the success write stores the
  data and no error, the error write stores the error and no data.
\<close>

theorem data_error_exclusive:
  fixes h :: "('v, 'p) objects"
  assumes "lookup (heap (run cache evs (QueryProvider c) :: ('v, 'p, 'c) provider)) snapshot key
             = Some r"
  shows "exclusive r
         \<and> data (defaultState k fetchFn :: ('v, 'p) QueryState) = None
         \<and> error (defaultState k fetchFn :: ('v, 'p) QueryState) = None
         \<and> (getMember store k = Undefined \<longrightarrow>
              readAfter (LoadingUpdater k fetchFn) h store k
                = Some \<lparr>status = Loading, data = None, error = None, isFetching = True,
                        refetch = (k, fetchFn)\<rparr>)
         \<and> readAfter (SuccessUpdater k d fetchFn) h store k
             = Some \<lparr>status = Success, data = d, error = None, isFetching = False,
                     refetch = (k, fetchFn)\<rparr>
         \<and> readAfter (ErrorUpdater k e fetchFn) h store k
             = Some \<lparr>status = Error, data = None, error = e, isFetching = False,
                     refetch = (k, fetchFn)\<rparr>"
proof -
  have "\<forall>r \<in> set (records (heap (QueryProvider c :: ('v, 'p, 'c) provider))). exclusive r"
    by (simp add: QueryProvider_def)
  then have "\<forall>r \<in> set (records (heap (run cache evs (QueryProvider c)))). exclusive r"
    by (rule exclusive_run)
  moreover from assms have "r \<in> set (records (heap (run cache evs (QueryProvider c))))"
    by (rule lookup_in_heap)
  ultimately have "exclusive r" by blast
  then show ?thesis
    by (simp add: defaultState_def readAfter_def lookup_new)
qed

theorem data_error_exclusive_witness:
  "lookup (heap (run None [Invoke ''users'' 0, Render, Settle 0 (Rejected (Some 3)), Render]
                   (QueryProvider ())))
      [''users'' \<mapsto> 1] ''users''
     = Some \<lparr>status = Error, data = None, error = Some (3::nat), isFetching = False,
             refetch = (''users'', 0::nat)\<rparr>
   \<and> exclusive \<lparr>status = Error, data = None, error = Some (3::nat), isFetching = False,
                 refetch = (''users'', 0::nat)\<rparr>
   \<and> getMember Map.empty ''users'' = Undefined
   \<and> readAfter (LoadingUpdater ''users'' (0::nat)) \<lparr>records = [], marked = {}\<rparr> Map.empty ''users''
       = Some \<lparr>status = Loading, data = None :: nat option, error = None, isFetching = True,
               refetch = (''users'', 0)\<rparr>"
proof -
  have 1: "lookup (heap (run None [Invoke ''users'' 0, Render, Settle 0 (Rejected (Some 3)), Render]
                   (QueryProvider ())))
      [''users'' \<mapsto> 1] ''users''
     = Some \<lparr>status = Error, data = None, error = Some (3::nat), isFetching = False,
             refetch = (''users'', 0::nat)\<rparr>"
    by (simp add: engine_defs)
  have 2: "getMember Map.empty ''users'' = Undefined"
    by (simp add: getMember_def objectPrototypeNames_def)
  from data_error_exclusive [OF 1, where k = "''users''" and fetchFn = 0 and store = Map.empty
      and h = "\<lparr>records = [], marked = {}\<rparr>" and d = "Some 7" and e = "Some 3"] 1 2
  show ?thesis by simp
qed

subsection \<open>Published records\<close>

text \<open>
  C7. Every mutation replaces the record under the key by a new object, and a record of an
  earlier snapshot is never changed in place. On the code the loading mark on a key that has
  a record assigns \<^verbatim>\<open>isFetching\<close> on the object that the earlier store holds: after a refetch
  on a success record the key still refers to the same object, and the earlier snapshot
  reads \<^verbatim>\<open>isFetching = true\<close> where it read \<^verbatim>\<open>false\<close>.
\<close>

theorem refetch_mutates_published_record:
  "lookup (heap succeeded) (queryStore succeeded) ''users''
     = Some \<lparr>status = Success, data = Some 7, error = None, isFetching = False,
             refetch = (''users'', 0)\<rparr>
   \<and> queryStore (render (fetchData None ''users'' 0 succeeded)) ''users''
       = queryStore succeeded ''users''
   \<and> lookup (heap (render (fetchData None ''users'' 0 succeeded))) (queryStore succeeded) ''users''
       = Some \<lparr>status = Success, data = Some 7, error = None, isFetching = True,
               refetch = (''users'', 0)\<rparr>"
  by (simp add: succeeded_def engine_defs)

section \<open>useQuery\<close>

text \<open>
  C8. For a key that was never passed to \<^verbatim>\<open>fetchData\<close>, the hook returns the default state:
  status \<^verbatim>\<open>idle\<close>, not fetching. On the code the hook returns
  \<^verbatim>\<open>queryStore[key] || defaultState\<close>, and under a key that names a member of
  \<^verbatim>\<open>Object.prototype\<close> the store of a fresh provider reads as that built-in. For
  \<^verbatim>\<open>"toString"\<close> the hook returns the function, not a state, and its effect does not fetch.
\<close>

theorem useQuery_inherited_key:
  "''toString'' \<notin> invokedKeys ([] :: (nat, nat) event list)
   \<and> fresh = run None [] (QueryProvider ())
   \<and> useQuery None (Some fresh) ''toString'' 0 = Inr (BuiltIn ''toString'', fresh)
   \<and> calls fresh = []"
  by (simp add: fresh_def useQuery_def getMember_def objectPrototypeNames_def QueryProvider_def)

text \<open>
  On a provider on which no key that names a member of \<^verbatim>\<open>Object.prototype\<close> has been
  invoked, the hook returns the default state for every other key that was never passed to
  \<^verbatim>\<open>fetchData\<close>.
\<close>

lemma useQuery_default:
  assumes "key \<notin> invokedKeys evs" and "key \<notin> set objectPrototypeNames"
    and "invokedKeys evs \<inter> set objectPrototypeNames = {}"
  shows "\<exists>s'. useQuery cache (Some (run cache evs (QueryProvider c))) key fetchFn
           = Inr (State \<lparr>status = Idle, data = None, error = None, isFetching = False,
                          refetch = (key, fetchFn)\<rparr>, s')"
proof -
  have "keysWithin (invokedKeys evs) (run cache evs (QueryProvider c))"
    by (rule keysWithin_run) (simp_all add: keysWithin_QueryProvider)
  then have "dom (queryStore (run cache evs (QueryProvider c))) \<subseteq> invokedKeys evs"
    unfolding keysWithin_def by blast
  with assms(1) have "key \<notin> dom (queryStore (run cache evs (QueryProvider c)))" by blast
  then have "queryStore (run cache evs (QueryProvider c)) key = None" by (simp add: domIff)
  with assms(2) have "getMember (queryStore (run cache evs (QueryProvider c))) key = Undefined"
    by (simp add: getMember_def)
  then show ?thesis
    by (simp add: useQuery_def defaultState_def)
qed

text \<open>
  C9. Outside a provider the hook throws at once: nothing of a store is read, no
  \<^verbatim>\<open>fetchData\<close> runs.
\<close>

theorem useQuery_outside_provider:
  "useQuery cache None key fetchFn = Inl (JSError ''useQuery must be used within a QueryProvider'')"
  by (simp add: useQuery_def)

theorem useQuery_outside_provider_witness:
  "useQuery (None :: (unit, nat) CachePlugin option) None ''users'' (0::nat)
     = Inl (JSError ''useQuery must be used within a QueryProvider'')"
  using useQuery_outside_provider [of "None :: (unit, nat) CachePlugin option" "''users''" "0::nat"]
  by simp

end
